theory Spec2Isabelle
  imports Main
begin

section \<open>The SCM service of \<^verbatim>\<open>packages/scm/src/browser/scm-service.ts\<close>\<close>

text \<open>
  The source is a TypeScript module with three classes: \<^verbatim>\<open>ScmService\<close> (the registry),
  \<^verbatim>\<open>ScmRepositoryImpl\<close> (the wrapper around one provider) and \<^verbatim>\<open>ScmInputImpl\<close> (the
  input model of a wrapper), and the helper \<^verbatim>\<open>InputValidator.Result.equal\<close>.

  Objects are mutable and compared by reference, so the embedding has an explicit store:
  wrapper objects live in \<open>objects\<close>, addressed by a reference, and JavaScript arrays live
  in \<open>arrays\<close>, addressed by an address. Every method takes the store and returns the new
  one; a method that can throw returns the thrown value as \<open>Inl\<close> next to the store it
  leaves behind.

  Private fields are spelled \<^verbatim>\<open>_name\<close> in the source; an identifier cannot start with an
  underscore here, so \<^verbatim>\<open>_name\<close> is written \<open>u_name\<close>. The field \<^verbatim>\<open>id\<close> of a provider is
  written \<open>provider_id\<close>, since \<open>id\<close> is the identity function of HOL.
\<close>

subsection \<open>Validation results\<close>

datatype validation_type = Info | Success | Warning | Error

record InputValidation =
  message :: string
  vtype :: validation_type

text \<open>
  \<^verbatim>\<open>equal(left, right)\<close>: \<^verbatim>\<open>undefined\<close> is \<open>None\<close>. An object is truthy, so
  \<^verbatim>\<open>left && right\<close> holds exactly when both are present; otherwise the result is
  \<^verbatim>\<open>left === right\<close>, which is true for two \<^verbatim>\<open>undefined\<close> and false for an object
  against \<^verbatim>\<open>undefined\<close>.
\<close>

fun equal :: "InputValidation option \<Rightarrow> InputValidation option \<Rightarrow> bool" where
  "equal (Some left) (Some right) = (message left = message right \<and> vtype left = vtype right)"
| "equal None None = True"
| "equal (Some left) None = False"
| "equal None (Some right) = False"

type_synonym InputValidator = "string \<Rightarrow> InputValidation option"

subsection \<open>Emitters\<close>

text \<open>
  Modelled from the spec: the class \<^verbatim>\<open>Emitter\<close> of \<^verbatim>\<open>@theia/core\<close> is not part of the
  source at hand. The spec describes a publish/subscribe channel with synchronous,
  in-order delivery. An emitter is modelled by the sequence of payloads fired on it so
  far; \<open>fire\<close> appends one payload. Subscribers are external code and are not modelled.
\<close>

type_synonym 'a Emitter = "'a list"

definition fire :: "'a Emitter \<Rightarrow> 'a \<Rightarrow> 'a Emitter" where
  "fire e x = e @ [x]"

subsection \<open>The input model\<close>

record ScmInputImpl =
  u_value :: string
  u_placeholder :: string
  u_visible :: bool
  u_validateInput :: InputValidator
  onDidChangePlaceholderEmitter :: "string Emitter"
  onDidChangeVisibilityEmitter :: "bool Emitter"
  onDidChangeValidateInputEmitter :: "unit Emitter"
  onDidChangeEmitter :: "string Emitter"

definition ScmInputImpl_new :: ScmInputImpl where
  "ScmInputImpl_new =
     \<lparr> u_value = '''', u_placeholder = '''', u_visible = True,
       u_validateInput = (\<lambda>_. None),
       onDidChangePlaceholderEmitter = [], onDidChangeVisibilityEmitter = [],
       onDidChangeValidateInputEmitter = [], onDidChangeEmitter = [] \<rparr>"

definition set_value :: "string \<Rightarrow> ScmInputImpl \<Rightarrow> ScmInputImpl" where
  "set_value v i =
     (if u_value i = v then i
      else i\<lparr> u_value := v, onDidChangeEmitter := fire (onDidChangeEmitter i) v \<rparr>)"

definition set_placeholder :: "string \<Rightarrow> ScmInputImpl \<Rightarrow> ScmInputImpl" where
  "set_placeholder p i =
     i\<lparr> u_placeholder := p,
        onDidChangePlaceholderEmitter := fire (onDidChangePlaceholderEmitter i) p \<rparr>"

definition set_visible :: "bool \<Rightarrow> ScmInputImpl \<Rightarrow> ScmInputImpl" where
  "set_visible b i =
     i\<lparr> u_visible := b,
        onDidChangeVisibilityEmitter := fire (onDidChangeVisibilityEmitter i) b \<rparr>"

definition set_validateInput :: "InputValidator \<Rightarrow> ScmInputImpl \<Rightarrow> ScmInputImpl" where
  "set_validateInput f i =
     i\<lparr> u_validateInput := f,
        onDidChangeValidateInputEmitter := fire (onDidChangeValidateInputEmitter i) () \<rparr>"

subsection \<open>Providers and wrappers\<close>

text \<open>
  A provider is supplied by the caller. The registry reads only its \<^verbatim>\<open>id\<close> and calls its
  \<^verbatim>\<open>dispose()\<close>; the resource groups and the event fields are passed through untouched
  and are left out of the record.
\<close>

record ScmProvider =
  label :: string
  provider_id :: string
  handle :: int
  contextValue :: string
  rootUri :: "string option"

record ScmRepositoryImpl =
  onDidFocusEmitter :: "unit Emitter"
  u_selected :: bool
  onDidChangeSelectionEmitter :: "bool Emitter"
  input :: ScmInputImpl
  provider :: ScmProvider

definition ScmRepositoryImpl_new :: "ScmProvider \<Rightarrow> ScmRepositoryImpl" where
  "ScmRepositoryImpl_new p =
     \<lparr> onDidFocusEmitter = [], u_selected = False, onDidChangeSelectionEmitter = [],
       input = ScmInputImpl_new, provider = p \<rparr>"

subsection \<open>The registry and the store\<close>

type_synonym ref = nat
type_synonym addr = nat

datatype js_error = JsError string

record ScmService =
  providerIds :: "string set"
  u_repositories :: addr
  u_selectedRepository :: "ref option"
  onDidChangeSelectedRepositoriesEmitter :: "ref option Emitter"
  onDidAddProviderEmitter :: "ref Emitter"
  onDidRemoveProviderEmitter :: "ref Emitter"

text \<open>
  The store: the registry object, the arrays (an address that was never allocated holds
  the empty array), the wrapper objects, the two allocation counters, and the record of
  the calls made to \<^verbatim>\<open>dispose()\<close> of providers, which are external.
\<close>

record store =
  service :: ScmService
  arrays :: "addr \<Rightarrow> ref list"
  next_array :: addr
  objects :: "ref \<rightharpoonup> ScmRepositoryImpl"
  next_object :: ref
  provider_disposals :: "ScmProvider list"

text \<open>The store after \<^verbatim>\<open>new ScmService()\<close>: the array of wrappers is at address 0.\<close>

definition ScmService_new :: store where
  "ScmService_new =
     \<lparr> service =
         \<lparr> providerIds = {}, u_repositories = 0, u_selectedRepository = None,
           onDidChangeSelectedRepositoriesEmitter = [], onDidAddProviderEmitter = [],
           onDidRemoveProviderEmitter = [] \<rparr>,
       arrays = (\<lambda>_. []), next_array = 1,
       objects = Map.empty, next_object = 0, provider_disposals = [] \<rparr>"

text \<open>The contents of the private array \<^verbatim>\<open>this._repositories\<close>.\<close>

definition repos :: "store \<Rightarrow> ref list" where
  "repos s = arrays s (u_repositories (service s))"

text \<open>
  \<^verbatim>\<open>get repositories()\<close> returns \<^verbatim>\<open>[...this._repositories]\<close>: a new array, at a new
  address, with the elements of the private one.
\<close>

definition repositories :: "store \<Rightarrow> addr \<times> store" where
  "repositories s =
     (let a = next_array s
      in (a, s\<lparr> arrays := (arrays s)(a := repos s), next_array := Suc a \<rparr>))"

definition get_selectedRepository :: "store \<Rightarrow> ref option" where
  "get_selectedRepository s = u_selectedRepository (service s)"

definition set_selectedRepository :: "ref option \<Rightarrow> store \<Rightarrow> store" where
  "set_selectedRepository repository s =
     s\<lparr> service := (service s)
          \<lparr> u_selectedRepository := repository,
            onDidChangeSelectedRepositoriesEmitter :=
              fire (onDidChangeSelectedRepositoriesEmitter (service s)) repository \<rparr> \<rparr>"

text \<open>\<^verbatim>\<open>Array.prototype.indexOf\<close>: the first index of the element, or \<open>-1\<close>.\<close>

fun indexOf :: "'a list \<Rightarrow> 'a \<Rightarrow> int" where
  "indexOf [] x = - 1"
| "indexOf (y # ys) x =
     (if y = x then 0 else (let i = indexOf ys x in if i < 0 then - 1 else i + 1))"

text \<open>\<^verbatim>\<open>xs.splice(index, 1)\<close> for an index that is not negative.\<close>

definition splice1 :: "'a list \<Rightarrow> nat \<Rightarrow> 'a list" where
  "splice1 xs index = take index xs @ drop (Suc index) xs"

text \<open>
  Modelled from the spec: \<^verbatim>\<open>Disposable.create\<close> of \<^verbatim>\<open>@theia/core\<close> is not part of the
  source at hand. The spec says that a second disposal "finds no matching entry and is a
  no-op", so the handle runs its function on every call of \<^verbatim>\<open>dispose()\<close>.
  \<open>disposable_dispose\<close> is the body of the function given to \<^verbatim>\<open>Disposable.create\<close> in
  \<^verbatim>\<open>registerScmProvider\<close>; \<open>repository\<close> and \<open>p\<close> are the variables it captures.
\<close>

definition disposable_dispose :: "ref \<Rightarrow> ScmProvider \<Rightarrow> store \<Rightarrow> store" where
  "disposable_dispose repository p s =
     (let index = indexOf (repos s) repository
      in if index < 0 then s
         else s\<lparr> service := (service s)
                   \<lparr> providerIds := providerIds (service s) - {provider_id p},
                     onDidRemoveProviderEmitter :=
                       fire (onDidRemoveProviderEmitter (service s)) repository \<rparr>,
                 arrays := (arrays s)
                   (u_repositories (service s) := splice1 (repos s) (nat index)) \<rparr>)"

definition already_exists :: "string \<Rightarrow> js_error" where
  "already_exists i = JsError (''SCM Provider '' @ i @ '' already exists.'')"

definition registerScmProvider :: "ScmProvider \<Rightarrow> store \<Rightarrow> (js_error + ref) \<times> store" where
  "registerScmProvider p s =
     (if provider_id p \<in> providerIds (service s)
      then (Inl (already_exists (provider_id p)), s)
      else
        let s1 = s\<lparr> service := (service s)
                     \<lparr> providerIds := insert (provider_id p) (providerIds (service s)) \<rparr> \<rparr>;
            repository = next_object s1;
            s2 = s1\<lparr> objects := (objects s1)(repository \<mapsto> ScmRepositoryImpl_new p),
                     next_object := Suc repository \<rparr>;
            s3 = s2\<lparr> arrays := (arrays s2)
                       (u_repositories (service s2) := repos s2 @ [repository]) \<rparr>;
            s4 = s3\<lparr> service := (service s3)
                       \<lparr> onDidAddProviderEmitter :=
                           fire (onDidAddProviderEmitter (service s3)) repository \<rparr> \<rparr>;
            s5 = (if length (repos s4) = 1
                  then set_selectedRepository (Some repository) s4 else s4)
        in (Inr repository, s5))"

subsection \<open>Methods of a wrapper\<close>

text \<open>
  A method of a wrapper is called on a reference. A reference always denotes an object
  in the source; on a number that denotes no object the model leaves the store as it is.
\<close>

definition selected :: "ref \<Rightarrow> store \<Rightarrow> bool option" where
  "selected r s = map_option u_selected (objects s r)"

definition focus :: "ref \<Rightarrow> store \<Rightarrow> store" where
  "focus r s =
     (case objects s r of
        None \<Rightarrow> s
      | Some w \<Rightarrow>
          s\<lparr> objects := (objects s)
               (r \<mapsto> w\<lparr> onDidFocusEmitter := fire (onDidFocusEmitter w) () \<rparr>) \<rparr>)"

definition setSelected :: "ref \<Rightarrow> bool \<Rightarrow> store \<Rightarrow> store" where
  "setSelected r b s =
     (case objects s r of
        None \<Rightarrow> s
      | Some w \<Rightarrow>
          s\<lparr> objects := (objects s)
               (r \<mapsto> w\<lparr> u_selected := b,
                        onDidChangeSelectionEmitter :=
                          fire (onDidChangeSelectionEmitter w) b \<rparr>) \<rparr>)"

text \<open>
  \<^verbatim>\<open>dispose()\<close> runs the handle and then \<^verbatim>\<open>this.provider.dispose()\<close>. The provider is
  external: \<open>outcome\<close> is what its \<^verbatim>\<open>dispose()\<close> does on this call, \<open>None\<close> when it
  returns and \<open>Some e\<close> when it throws \<open>e\<close>, which then leaves the wrapper's method.
\<close>

definition dispose :: "ref \<Rightarrow> js_error option \<Rightarrow> store \<Rightarrow> (js_error + unit) \<times> store" where
  "dispose r outcome s =
     (case objects s r of
        None \<Rightarrow> (Inr (), s)
      | Some w \<Rightarrow>
          let s1 = disposable_dispose r (provider w) s;
              s2 = s1\<lparr> provider_disposals := provider_disposals s1 @ [provider w] \<rparr>
          in (case outcome of None \<Rightarrow> (Inr (), s2) | Some e \<Rightarrow> (Inl e, s2)))"

text \<open>An assignment to a field of \<^verbatim>\<open>repository.input\<close>, through one of the setters above.\<close>

definition update_input :: "ref \<Rightarrow> (ScmInputImpl \<Rightarrow> ScmInputImpl) \<Rightarrow> store \<Rightarrow> store" where
  "update_input r f s =
     (case objects s r of
        None \<Rightarrow> s
      | Some w \<Rightarrow> s\<lparr> objects := (objects s)(r \<mapsto> w\<lparr> input := f (input w) \<rparr>) \<rparr>)"

subsection \<open>Runs of the registry\<close>

text \<open>
  What a client can do with a registry and its wrappers, one call at a time, and the
  stores that a sequence of such calls reaches from a new registry.
\<close>

datatype action =
    Register ScmProvider
  | Dispose ref "js_error option"
  | SetSelectedRepository "ref option"
  | GetRepositories
  | Focus ref
  | SetSelected ref bool
  | SetValue ref string
  | SetPlaceholder ref string
  | SetVisible ref bool
  | SetValidateInput ref InputValidator

fun perform :: "action \<Rightarrow> store \<Rightarrow> store" where
  "perform (Register p) s = snd (registerScmProvider p s)"
| "perform (Dispose r outcome) s = snd (dispose r outcome s)"
| "perform (SetSelectedRepository v) s = set_selectedRepository v s"
| "perform GetRepositories s = snd (repositories s)"
| "perform (Focus r) s = focus r s"
| "perform (SetSelected r b) s = setSelected r b s"
| "perform (SetValue r v) s = update_input r (set_value v) s"
| "perform (SetPlaceholder r v) s = update_input r (set_placeholder v) s"
| "perform (SetVisible r b) s = update_input r (set_visible b) s"
| "perform (SetValidateInput r f) s = update_input r (set_validateInput f) s"

fun run :: "action list \<Rightarrow> store \<Rightarrow> store" where
  "run [] s = s"
| "run (a # as) s = run as (perform a s)"

inductive reachable :: "store \<Rightarrow> bool" where
  init: "reachable ScmService_new"
| step: "reachable s \<Longrightarrow> reachable (perform a s)"

text \<open>Registering a list of providers in order; the results are kept in order.\<close>

fun register_all :: "ScmProvider list \<Rightarrow> store \<Rightarrow> (js_error + ref) list \<times> store" where
  "register_all [] s = ([], s)"
| "register_all (p # ps) s =
     (let (res, s1) = registerScmProvider p s;
          (rs, s2) = register_all ps s1
      in (res # rs, s2))"

subsection \<open>Well-formed stores and fixtures\<close>

text \<open>
  The provider id of the wrapper that a reference denotes, and the invariant of the
  stores that a run reaches: the wrappers of the sequence are distinct objects of the
  store, their provider ids are pairwise different and are exactly the ids in use, and
  allocation is fresh.
\<close>

definition pid_of :: "store \<Rightarrow> ref \<Rightarrow> string" where
  "pid_of s r = (case objects s r of None \<Rightarrow> [] | Some w \<Rightarrow> provider_id (provider w))"

definition wf :: "store \<Rightarrow> bool" where
  "wf s \<longleftrightarrow>
     distinct (repos s)
     \<and> set (repos s) \<subseteq> dom (objects s)
     \<and> (\<forall>r \<in> dom (objects s). r < next_object s)
     \<and> providerIds (service s) = pid_of s ` set (repos s)
     \<and> inj_on (pid_of s) (set (repos s))
     \<and> u_repositories (service s) < next_array s"

text \<open>The selection is absent or denotes a member of the sequence.\<close>

definition selection_valid :: "store \<Rightarrow> bool" where
  "selection_valid s =
     (case get_selectedRepository s of None \<Rightarrow> True | Some r \<Rightarrow> r \<in> set (repos s))"

text \<open>The providers A and B of the end-to-end scenario of the spec.\<close>

abbreviation provider_a :: ScmProvider where
  "provider_a \<equiv> \<lparr> label = ''A'', provider_id = ''a'', handle = 1, contextValue = ''git'', rootUri = None \<rparr>"

abbreviation provider_b :: ScmProvider where
  "provider_b \<equiv> \<lparr> label = ''B'', provider_id = ''b'', handle = 2, contextValue = ''git'', rootUri = None \<rparr>"

section \<open>Lemmas\<close>

subsection \<open>Searching and removing in an array\<close>

lemma indexOf_ge: "- 1 \<le> indexOf xs x"
  by (induction xs) (auto simp: Let_def)

lemma indexOf_neg_iff: "indexOf xs x < 0 \<longleftrightarrow> x \<notin> set xs"
  using indexOf_ge [of _ x] by (induction xs) (auto simp: Let_def)

lemma splice1_indexOf: "x \<in> set xs \<Longrightarrow> splice1 xs (nat (indexOf xs x)) = remove1 x xs"
proof (induction xs)
  case Nil
  then show ?case by simp
next
  case (Cons y ys)
  show ?case
  proof (cases "y = x")
    case True
    then show ?thesis by (simp add: splice1_def)
  next
    case False
    with Cons.prems have mem: "x \<in> set ys" by simp
    then have nn: "\<not> indexOf ys x < 0" by (simp add: indexOf_neg_iff)
    then have "nat (indexOf ys x + 1) = Suc (nat (indexOf ys x))" by simp
    with False nn Cons.IH [OF mem] show ?thesis
      by (simp add: splice1_def Let_def)
  qed
qed

subsection \<open>The invariant of reachable stores\<close>

lemma pid_of_cong: "objects t = objects s \<Longrightarrow> pid_of t = pid_of s"
  by (simp add: pid_of_def fun_eq_iff)

lemma wf_cong:
  assumes "repos t = repos s" "objects t = objects s" "next_object t = next_object s"
    "providerIds (service t) = providerIds (service s)"
    "u_repositories (service t) = u_repositories (service s)"
    "next_array s \<le> next_array t"
  shows "wf s \<Longrightarrow> wf t"
  using assms pid_of_cong [OF assms(2)] by (auto simp: wf_def)

lemma wf_new: "wf ScmService_new"
  by (simp add: wf_def ScmService_new_def repos_def)

lemma wf_set_selectedRepository: "wf s \<Longrightarrow> wf (set_selectedRepository v s)"
  by (erule wf_cong [rotated -1]) (simp_all add: set_selectedRepository_def repos_def)

lemma wf_repositories: "wf s \<Longrightarrow> wf (snd (repositories s))"
proof -
  assume w: "wf s"
  then have "u_repositories (service s) \<noteq> next_array s" by (auto simp: wf_def)
  with w show ?thesis
    by (elim wf_cong [rotated -1]) (simp_all add: repositories_def repos_def Let_def)
qed

lemma wf_objects_update:
  assumes "wf s" "objects s r = Some w" "provider w' = provider w"
  shows "wf (s\<lparr> objects := (objects s)(r \<mapsto> w') \<rparr>)"
proof -
  have "pid_of (s\<lparr> objects := (objects s)(r \<mapsto> w') \<rparr>) = pid_of s"
    using assms(2,3) by (auto simp: pid_of_def fun_eq_iff)
  moreover have "dom ((objects s)(r \<mapsto> w')) = dom (objects s)"
    using assms(2) by auto
  ultimately show ?thesis using assms(1) by (simp add: wf_def repos_def)
qed

lemma wf_focus: "wf s \<Longrightarrow> wf (focus r s)"
  by (auto simp: focus_def intro: wf_objects_update split: option.splits)

lemma wf_setSelected: "wf s \<Longrightarrow> wf (setSelected r b s)"
  by (auto simp: setSelected_def intro: wf_objects_update split: option.splits)

lemma wf_update_input: "wf s \<Longrightarrow> wf (update_input r f s)"
  by (auto simp: update_input_def intro: wf_objects_update split: option.splits)

lemma repos_disposable_dispose:
  "repos (disposable_dispose r p s) = remove1 r (repos s)"
proof (cases "r \<in> set (repos s)")
  case True
  then show ?thesis
    by (simp add: disposable_dispose_def Let_def indexOf_neg_iff splice1_indexOf repos_def)
next
  case False
  then show ?thesis
    by (simp add: disposable_dispose_def Let_def indexOf_neg_iff remove1_idem)
qed

lemma wf_disposable_dispose:
  assumes "wf s" "objects s r = Some w"
  shows "wf (disposable_dispose r (provider w) s)"
proof (cases "r \<in> set (repos s)")
  case False
  with assms(1) show ?thesis
    by (simp add: disposable_dispose_def Let_def indexOf_neg_iff)
next
  case True
  let ?s' = "disposable_dispose r (provider w) s"
  have rp: "repos ?s' = remove1 r (repos s)" by (rule repos_disposable_dispose)
  have ob: "objects ?s' = objects s" "next_object ?s' = next_object s"
    "next_array ?s' = next_array s" "u_repositories (service ?s') = u_repositories (service s)"
    by (simp_all add: disposable_dispose_def Let_def)
  have pd: "pid_of ?s' = pid_of s" using ob(1) by (simp add: pid_of_def fun_eq_iff)
  have ids: "providerIds (service ?s') = providerIds (service s) - {pid_of s r}"
    using True assms(2) by (simp add: disposable_dispose_def Let_def indexOf_neg_iff pid_of_def)
  from assms(1) have d: "distinct (repos s)" and inj: "inj_on (pid_of s) (set (repos s))"
    and pi: "providerIds (service s) = pid_of s ` set (repos s)"
    by (simp_all add: wf_def)
  from assms(1) have sub: "set (repos s) \<subseteq> dom (objects s)"
    and lt: "\<forall>x \<in> dom (objects s). x < next_object s"
    and ua: "u_repositories (service s) < next_array s"
    by (simp_all add: wf_def)
  have st: "set (remove1 r (repos s)) = set (repos s) - {r}" using d by simp
  have img: "pid_of s ` (set (repos s) - {r}) = pid_of s ` set (repos s) - {pid_of s r}"
    using inj True by (auto simp: inj_on_def)
  have 1: "distinct (repos ?s')" using d by (simp add: rp)
  have 2: "set (repos ?s') \<subseteq> dom (objects ?s')" using sub by (auto simp: rp ob(1) st)
  have 3: "\<forall>x \<in> dom (objects ?s'). x < next_object ?s'" using lt by (simp add: ob(1,2))
  have 4: "providerIds (service ?s') = pid_of ?s' ` set (repos ?s')"
    by (simp only: ids pi pd rp st img)
  have 5: "inj_on (pid_of ?s') (set (repos ?s'))"
    unfolding pd rp st using inj by (rule inj_on_diff)
  have 6: "u_repositories (service ?s') < next_array ?s'" using ua by (simp add: ob(3,4))
  show ?thesis unfolding wf_def using 1 2 3 4 5 6 by blast
qed

lemma wf_dispose: "wf s \<Longrightarrow> wf (snd (dispose r outcome s))"
proof -
  assume w: "wf s"
  have a: "\<And>t. wf t \<Longrightarrow> wf (t\<lparr> provider_disposals := provider_disposals t @ [x] \<rparr>)" for x
    by (erule wf_cong [rotated -1]) (simp_all add: repos_def)
  show ?thesis using w
    by (auto simp: dispose_def Let_def a wf_disposable_dispose split: option.splits)
qed

lemma wf_register: "wf s \<Longrightarrow> wf (snd (registerScmProvider p s))"
proof (cases "provider_id p \<in> providerIds (service s)")
  case True
  assume "wf s"
  with True show ?thesis by (simp add: registerScmProvider_def)
next
  case False
  assume w: "wf s"
  let ?n = "next_object s"
  let ?t = "snd (registerScmProvider p s)"
  from w have fresh: "objects s ?n = None" "?n \<notin> set (repos s)"
    by (auto simp: wf_def)
  have rp: "repos ?t = repos s @ [?n]"
    and ob: "objects ?t = (objects s)(?n \<mapsto> ScmRepositoryImpl_new p)"
    and no: "next_object ?t = Suc ?n"
    and ids: "providerIds (service ?t) = insert (provider_id p) (providerIds (service s))"
    and ur: "u_repositories (service ?t) = u_repositories (service s)"
    and na: "next_array ?t = next_array s"
    using False
    by (simp_all add: registerScmProvider_def Let_def repos_def set_selectedRepository_def)
  have pn: "pid_of ?t ?n = provider_id p"
    by (simp add: pid_of_def ob ScmRepositoryImpl_new_def)
  have po: "\<And>r. r \<in> set (repos s) \<Longrightarrow> pid_of ?t r = pid_of s r"
    using fresh by (auto simp: pid_of_def ob)
  from w have d: "distinct (repos s)" and sub: "set (repos s) \<subseteq> dom (objects s)"
    and lt: "\<forall>r \<in> dom (objects s). r < next_object s"
    and inj: "inj_on (pid_of s) (set (repos s))"
    and pi: "providerIds (service s) = pid_of s ` set (repos s)"
    and ua: "u_repositories (service s) < next_array s"
    by (simp_all add: wf_def)
  have img: "pid_of ?t ` set (repos s) = pid_of s ` set (repos s)"
    using po by (auto simp: image_iff)
  have nin: "provider_id p \<notin> pid_of s ` set (repos s)" using False pi by simp
  have 1: "distinct (repos ?t)" using d fresh by (simp add: rp)
  have 2: "set (repos ?t) \<subseteq> dom (objects ?t)" using sub by (auto simp: rp ob)
  have 3: "\<forall>r \<in> dom (objects ?t). r < next_object ?t"
    using lt by (auto simp: ob no less_Suc_eq)
  have 4: "providerIds (service ?t) = pid_of ?t ` set (repos ?t)"
    by (simp add: ids rp pn img pi)
  have 5: "inj_on (pid_of ?t) (set (repos ?t))"
    unfolding rp using inj nin po pn by (auto simp: inj_on_def image_iff)
  have 6: "u_repositories (service ?t) < next_array ?t" using ua by (simp add: ur na)
  show ?thesis unfolding wf_def using 1 2 3 4 5 6 by blast
qed

lemma wf_perform: "wf s \<Longrightarrow> wf (perform a s)"
  by (cases a) (simp_all add: wf_register wf_dispose wf_set_selectedRepository wf_repositories
      wf_focus wf_setSelected wf_update_input)

lemma reachable_wf: "reachable s \<Longrightarrow> wf s"
  by (induction rule: reachable.induct) (simp_all add: wf_new wf_perform)

lemma reachable_run: "reachable s \<Longrightarrow> reachable (run as s)"
  by (induction as arbitrary: s) (auto intro: reachable.step)

subsection \<open>Projections of the methods\<close>

lemma snd_dispose:
  "objects s r = Some w \<Longrightarrow>
   snd (dispose r outcome s) =
     (disposable_dispose r (provider w) s)
       \<lparr> provider_disposals :=
           provider_disposals (disposable_dispose r (provider w) s) @ [provider w] \<rparr>"
  by (simp add: dispose_def Let_def split: option.splits)

lemma fst_dispose:
  "objects s r = Some w \<Longrightarrow>
   fst (dispose r outcome s) = (case outcome of None \<Rightarrow> Inr () | Some e \<Rightarrow> Inl e)"
  by (simp add: dispose_def Let_def split: option.splits)

lemma repos_dispose:
  "repos (snd (dispose r outcome s)) = remove1 r (repos s)
   \<or> repos (snd (dispose r outcome s)) = repos s"
  by (auto simp: dispose_def Let_def repos_disposable_dispose [unfolded repos_def] repos_def
      split: option.splits)

lemma selected_dispose:
  "get_selectedRepository (snd (dispose r outcome s)) = get_selectedRepository s"
  by (auto simp: dispose_def Let_def disposable_dispose_def get_selectedRepository_def split: option.splits)

lemma register_fresh_id:
  assumes "provider_id p \<notin> providerIds (service s)"
  shows "fst (registerScmProvider p s) = Inr (next_object s)"
    and "repos (snd (registerScmProvider p s)) = repos s @ [next_object s]"
    and "providerIds (service (snd (registerScmProvider p s))) =
           insert (provider_id p) (providerIds (service s))"
    and "next_object (snd (registerScmProvider p s)) = Suc (next_object s)"
    and "get_selectedRepository (snd (registerScmProvider p s)) =
           (if repos s = [] then Some (next_object s) else get_selectedRepository s)"
  using assms
  by (simp_all add: registerScmProvider_def Let_def repos_def set_selectedRepository_def
      get_selectedRepository_def)

lemma upt_shift: "n # [Suc n ..< Suc n + l] = [n ..< n + Suc l]"
  using upt_conv_Cons [of n "n + Suc l"] by simp

lemma fst_register_all_Cons:
  "fst (register_all (p # ps) s) =
     fst (registerScmProvider p s) # fst (register_all ps (snd (registerScmProvider p s)))"
  by (simp add: split_beta)

lemma snd_register_all_Cons:
  "snd (register_all (p # ps) s) = snd (register_all ps (snd (registerScmProvider p s)))"
  by (simp add: split_beta)

lemma register_all_nonempty:
  assumes "repos s \<noteq> []" and "distinct (map provider_id ps)"
    and "provider_id ` set ps \<inter> providerIds (service s) = {}"
  shows "fst (register_all ps s) = map Inr [next_object s ..< next_object s + length ps]
       \<and> get_selectedRepository (snd (register_all ps s)) = get_selectedRepository s"
  using assms
proof (induction ps arbitrary: s)
  case Nil
  then show ?case by simp
next
  case (Cons p ps)
  let ?t = "snd (registerScmProvider p s)"
  from Cons.prems have fresh: "provider_id p \<notin> providerIds (service s)" by auto
  note f = register_fresh_id [OF fresh]
  have 1: "repos ?t \<noteq> []" by (simp add: f)
  have 2: "distinct (map provider_id ps)" using Cons.prems by simp
  have 3: "provider_id ` set ps \<inter> providerIds (service ?t) = {}"
    using Cons.prems by (auto simp: f)
  note ih = Cons.IH [OF 1 2 3]
  from ih have "fst (register_all (p # ps) s) =
      Inr (next_object s) # map Inr [Suc (next_object s) ..< Suc (next_object s) + length ps]"
    by (simp only: fst_register_all_Cons f(1,4))
  also have "\<dots> = map Inr (next_object s # [Suc (next_object s) ..< Suc (next_object s) + length ps])"
    by (simp only: list.map)
  also have "\<dots> = map Inr [next_object s ..< next_object s + length (p # ps)]"
    by (simp only: upt_shift length_Cons)
  finally have a: "fst (register_all (p # ps) s) =
      map Inr [next_object s ..< next_object s + length (p # ps)]" .
  from ih have b: "get_selectedRepository (snd (register_all (p # ps) s)) = get_selectedRepository s"
    using Cons.prems(1) by (simp only: snd_register_all_Cons f(5) if_False)
  from a b show ?case by blast
qed

lemma perform_keeps_snapshot:
  assumes "a < next_array s" and "a \<noteq> u_repositories (service s)"
  shows "arrays (perform act s) a = arrays s a
       \<and> a < next_array (perform act s)
       \<and> u_repositories (service (perform act s)) = u_repositories (service s)"
  using assms
  by (cases act)
     (auto simp: registerScmProvider_def Let_def repos_def set_selectedRepository_def
        dispose_def disposable_dispose_def repositories_def focus_def setSelected_def
        update_input_def split: option.splits)

lemma run_keeps_snapshot:
  assumes "a < next_array s" and "a \<noteq> u_repositories (service s)"
  shows "arrays (run acts s) a = arrays s a"
  using assms
proof (induction acts arbitrary: s)
  case Nil
  then show ?case by simp
next
  case (Cons act acts)
  from perform_keeps_snapshot [OF Cons.prems, of act]
  have "arrays (perform act s) a = arrays s a" "a < next_array (perform act s)"
    "a \<noteq> u_repositories (service (perform act s))"
    using Cons.prems(2) by simp_all
  with Cons.IH [of "perform act s"] show ?case by simp
qed

text \<open>The definitions that evaluate a run on a concrete store.\<close>

lemmas store_defs = registerScmProvider_def ScmService_new_def Let_def repos_def
  set_selectedRepository_def ScmRepositoryImpl_new_def fire_def dispose_def disposable_dispose_def
  splice1_def repositories_def get_selectedRepository_def selected_def

section \<open>Properties\<close>

subsection \<open>Duplicate registration\<close>

text \<open>
  C1. In every store that a run reaches, registering a provider whose id is the id of
  the provider of a wrapper in the sequence throws the error whose message names that
  id, and the store it leaves behind is the store before the call: the sequence, the set
  of ids, the selection and every emitter are as they were.
\<close>

theorem register_duplicate:
  assumes "reachable s" and "r \<in> set (repos s)" and "objects s r = Some w"
    and "provider_id (provider w) = provider_id p"
  shows "registerScmProvider p s =
           (Inl (JsError (''SCM Provider '' @ provider_id p @ '' already exists.'')), s)"
proof -
  from assms(1) have "wf s" by (rule reachable_wf)
  then have "providerIds (service s) = pid_of s ` set (repos s)" by (simp add: wf_def)
  moreover have "pid_of s r = provider_id p" using assms(3,4) by (simp add: pid_of_def)
  ultimately have "provider_id p \<in> providerIds (service s)" using assms(2) by force
  then show ?thesis by (simp add: registerScmProvider_def already_exists_def)
qed

theorem register_duplicate_witness:
  "registerScmProvider provider_a (perform (Register provider_a) ScmService_new) =
     (Inl (JsError ''SCM Provider a already exists.''), perform (Register provider_a) ScmService_new)"
proof -
  let ?s = "perform (Register provider_a) ScmService_new"
  have r: "reachable ?s" by (rule reachable.step) (rule reachable.init)
  have m: "0 \<in> set (repos ?s)" by (simp add: store_defs)
  have ob: "objects ?s 0 = Some (ScmRepositoryImpl_new provider_a)" by (simp add: store_defs)
  have pi: "provider_id (provider (ScmRepositoryImpl_new provider_a)) = provider_id provider_a"
    by (simp add: ScmRepositoryImpl_new_def)
  show ?thesis using register_duplicate [OF r m ob pi] by simp
qed

subsection \<open>The first registration is selected\<close>

text \<open>
  C2. From a registry with an empty sequence and no id in use, registering providers with
  pairwise different ids succeeds each time; the wrapper returned by the first
  registration is the selected repository right after it, and still is after each of
  the first \<open>k\<close> registrations, for every \<open>k\<close> from 1 to the number of providers.
\<close>

theorem first_registration_stays_selected:
  assumes "repos s = []" and "providerIds (service s) = {}"
    and "distinct (map provider_id ps)" and "1 \<le> k" and "k \<le> length ps"
  shows "fst (registerScmProvider (hd ps) s) = Inr (next_object s)
    \<and> get_selectedRepository (snd (registerScmProvider (hd ps) s)) = Some (next_object s)
    \<and> fst (register_all (take k ps) s) = map Inr [next_object s ..< next_object s + k]
    \<and> get_selectedRepository (snd (register_all (take k ps) s)) = Some (next_object s)"
proof -
  from assms(4,5) obtain p qs where ps: "ps = p # qs" by (cases ps) auto
  from assms(4) obtain j where k: "k = Suc j" by (cases k) auto
  let ?t = "snd (registerScmProvider p s)"
  have fresh: "provider_id p \<notin> providerIds (service s)" using assms(2) by simp
  note f = register_fresh_id [OF fresh]
  have 1: "repos ?t \<noteq> []" by (simp add: f)
  have 2: "distinct (map provider_id (take j qs))"
    using assms(3) by (simp add: ps take_map [symmetric])
  have "provider_id p \<notin> provider_id ` set qs" using assms(3) by (simp add: ps)
  then have 3: "provider_id ` set (take j qs) \<inter> providerIds (service ?t) = {}"
    using assms(2) by (auto simp: f dest: in_set_takeD)
  have len: "length (take j qs) = j" using assms(5) by (simp add: ps k)
  note r = register_all_nonempty [OF 1 2 3, unfolded len]
  have tk: "take k ps = p # take j qs" by (simp add: ps k)
  from r have "fst (register_all (take k ps) s) =
      Inr (next_object s) # map Inr [Suc (next_object s) ..< Suc (next_object s) + j]"
    by (simp only: tk fst_register_all_Cons f(1,4))
  also have "\<dots> = map Inr (next_object s # [Suc (next_object s) ..< Suc (next_object s) + j])"
    by (simp only: list.map)
  also have "\<dots> = map Inr [next_object s ..< next_object s + k]"
    by (simp only: upt_shift k)
  finally have a: "fst (register_all (take k ps) s) = map Inr [next_object s ..< next_object s + k]" .
  have sel: "get_selectedRepository ?t = Some (next_object s)"
    using assms(1) by (simp add: f(5))
  from r have b: "get_selectedRepository (snd (register_all (take k ps) s)) = Some (next_object s)"
    by (simp only: tk snd_register_all_Cons sel)
  have c: "hd ps = p" by (simp add: ps)
  from a b sel f(1) show ?thesis unfolding c by blast
qed

theorem first_registration_stays_selected_witness:
  "fst (registerScmProvider provider_a ScmService_new) = Inr 0
   \<and> get_selectedRepository (snd (registerScmProvider provider_a ScmService_new)) = Some 0
   \<and> fst (register_all [provider_a, provider_b] ScmService_new) = [Inr 0, Inr 1]
   \<and> get_selectedRepository (snd (register_all [provider_a, provider_b] ScmService_new)) = Some 0"
proof -
  have h: "repos ScmService_new = []" "providerIds (service ScmService_new) = {}"
    by (simp_all add: ScmService_new_def repos_def)
  have d: "distinct (map provider_id [provider_a, provider_b])" by simp
  have k: "(1::nat) \<le> 2" "2 \<le> length [provider_a, provider_b]" by simp_all
  have n: "next_object ScmService_new = 0" by (simp add: ScmService_new_def)
  have u: "[0 ..< 0 + 2] = [0, Suc 0]" by (simp add: upt_rec)
  show ?thesis
    using first_registration_stays_selected [OF h d k]
    unfolding n u by simp
qed

subsection \<open>Membership of the selection\<close>

text \<open>
  C3, as stated, fails. After registering A and disposing its wrapper, the store is
  reachable, the selected repository is still the wrapper of A, and the sequence is empty.
\<close>

theorem selection_dangles_counterexample:
  "reachable (run [Register provider_a, Dispose 0 None] ScmService_new)
   \<and> get_selectedRepository (run [Register provider_a, Dispose 0 None] ScmService_new) = Some 0
   \<and> 0 \<notin> set (repos (run [Register provider_a, Dispose 0 None] ScmService_new))"
proof -
  have "reachable (run [Register provider_a, Dispose 0 None] ScmService_new)"
    by (rule reachable_run) (rule reachable.init)
  moreover have "get_selectedRepository (run [Register provider_a, Dispose 0 None] ScmService_new) = Some 0"
    by (simp add: store_defs)
  moreover have "0 \<notin> set (repos (run [Register provider_a, Dispose 0 None] ScmService_new))"
    by (simp add: store_defs)
  ultimately show ?thesis by blast
qed

text \<open>
  C3, amended. Registration keeps the selection a member of the sequence; disposing a
  wrapper keeps it so when the wrapper is not the selected one; assigning the selection
  makes it so when the value is absent or a member of the sequence.
\<close>

theorem selection_membership_preserved:
  "(selection_valid s \<longrightarrow> selection_valid (snd (registerScmProvider p s)))
   \<and> (selection_valid s \<and> get_selectedRepository s \<noteq> Some r
        \<longrightarrow> selection_valid (snd (dispose r outcome s)))
   \<and> ((v = None \<or> (\<exists>x \<in> set (repos s). v = Some x))
        \<longrightarrow> selection_valid (set_selectedRepository v s))"
proof (intro conjI impI)
  assume "selection_valid s"
  then show "selection_valid (snd (registerScmProvider p s))"
    by (auto simp: selection_valid_def registerScmProvider_def Let_def repos_def
        get_selectedRepository_def set_selectedRepository_def split: option.splits)
next
  assume a: "selection_valid s \<and> get_selectedRepository s \<noteq> Some r"
  show "selection_valid (snd (dispose r outcome s))"
  proof (cases "get_selectedRepository s")
    case None
    then show ?thesis by (simp add: selection_valid_def selected_dispose)
  next
    case (Some x)
    with a have "x \<in> set (repos s)" "x \<noteq> r" by (auto simp: selection_valid_def)
    then have "x \<in> set (remove1 r (repos s))" by simp
    with \<open>x \<in> set (repos s)\<close> repos_dispose [of r outcome s]
    have "x \<in> set (repos (snd (dispose r outcome s)))" by auto
    with Some show ?thesis by (simp add: selection_valid_def selected_dispose)
  qed
next
  assume "v = None \<or> (\<exists>x \<in> set (repos s). v = Some x)"
  then show "selection_valid (set_selectedRepository v s)"
    by (auto simp: selection_valid_def set_selectedRepository_def repos_def get_selectedRepository_def)
qed

theorem selection_membership_preserved_witness:
  "selection_valid (snd (registerScmProvider provider_b (perform (Register provider_a) ScmService_new)))
   \<and> selection_valid (snd (dispose 1 None (run [Register provider_a, Register provider_b] ScmService_new)))
   \<and> selection_valid (set_selectedRepository (Some 0) (perform (Register provider_a) ScmService_new))"
proof -
  let ?s1 = "perform (Register provider_a) ScmService_new"
  let ?s2 = "run [Register provider_a, Register provider_b] ScmService_new"
  have v1: "selection_valid ?s1" by (simp add: selection_valid_def store_defs)
  have v2: "selection_valid ?s2 \<and> get_selectedRepository ?s2 \<noteq> Some 1"
    by (simp add: selection_valid_def store_defs)
  have v3: "Some 0 = None \<or> (\<exists>x \<in> set (repos ?s1). Some 0 = Some x)" by (simp add: store_defs)
  from selection_membership_preserved [of ?s1 provider_b 1 None "Some 0"] v1
  have a: "selection_valid (snd (registerScmProvider provider_b ?s1))" by blast
  from selection_membership_preserved [of ?s2 provider_b 1 None "Some 0"] v2
  have b: "selection_valid (snd (dispose 1 None ?s2))" by blast
  from selection_membership_preserved [of ?s1 provider_b 1 None "Some 0"] v3
  have c: "selection_valid (set_selectedRepository (Some 0) ?s1)" by blast
  from a b c show ?thesis by blast
qed

subsection \<open>Disposing a wrapper, once and again\<close>

text \<open>
  C4, as stated, fails in one part: the second \<^verbatim>\<open>dispose()\<close> can throw. The method calls
  \<^verbatim>\<open>this.provider.dispose()\<close> on every call, so when the provider of A throws on the
  second call, the wrapper's \<^verbatim>\<open>dispose()\<close> throws the same error, although the wrapper
  was registered and its first disposal returned.
\<close>

theorem dispose_again_throws_counterexample:
  "reachable (perform (Register provider_a) ScmService_new)
   \<and> 0 \<in> set (repos (perform (Register provider_a) ScmService_new))
   \<and> fst (dispose 0 None (perform (Register provider_a) ScmService_new)) = Inr ()
   \<and> fst (dispose 0 (Some (JsError ''boom''))
            (snd (dispose 0 None (perform (Register provider_a) ScmService_new))))
       = Inl (JsError ''boom'')"
proof -
  have "reachable (perform (Register provider_a) ScmService_new)"
    by (rule reachable.step) (rule reachable.init)
  moreover have "0 \<in> set (repos (perform (Register provider_a) ScmService_new))"
    by (simp add: store_defs)
  moreover have "fst (dispose 0 None (perform (Register provider_a) ScmService_new)) = Inr ()"
    by (simp add: store_defs)
  moreover have "fst (dispose 0 (Some (JsError ''boom''))
      (snd (dispose 0 None (perform (Register provider_a) ScmService_new))))
      = Inl (JsError ''boom'')"
    by (simp add: store_defs)
  ultimately show ?thesis by blast
qed

text \<open>
  C4, amended. In a reachable store, the first \<^verbatim>\<open>dispose()\<close> of a wrapper of the
  sequence removes it from the sequence and from the snapshot taken afterwards, and fires
  "repository removed" once, with that wrapper, and nothing on the two other emitters of
  the registry. The second \<^verbatim>\<open>dispose()\<close> leaves the registry object, the arrays and the
  wrappers as they are, and raises no error of its own: it throws exactly what the
  provider's own \<^verbatim>\<open>dispose()\<close> throws on that call, and nothing when that returns.
\<close>

theorem dispose_twice:
  assumes "reachable s" and "r \<in> set (repos s)"
  shows "r \<notin> set (repos (snd (dispose r o1 s)))
    \<and> repos (snd (dispose r o1 s)) = remove1 r (repos s)
    \<and> r \<notin> set (arrays (snd (repositories (snd (dispose r o1 s))))
                     (fst (repositories (snd (dispose r o1 s)))))
    \<and> onDidRemoveProviderEmitter (service (snd (dispose r o1 s))) =
        onDidRemoveProviderEmitter (service s) @ [r]
    \<and> onDidAddProviderEmitter (service (snd (dispose r o1 s))) =
        onDidAddProviderEmitter (service s)
    \<and> onDidChangeSelectedRepositoriesEmitter (service (snd (dispose r o1 s))) =
        onDidChangeSelectedRepositoriesEmitter (service s)
    \<and> fst (dispose r o2 (snd (dispose r o1 s))) = (case o2 of None \<Rightarrow> Inr () | Some e \<Rightarrow> Inl e)
    \<and> service (snd (dispose r o2 (snd (dispose r o1 s)))) = service (snd (dispose r o1 s))
    \<and> arrays (snd (dispose r o2 (snd (dispose r o1 s)))) = arrays (snd (dispose r o1 s))
    \<and> objects (snd (dispose r o2 (snd (dispose r o1 s)))) = objects (snd (dispose r o1 s))"
proof -
  let ?s1 = "snd (dispose r o1 s)"
  from assms(1) have w: "wf s" by (rule reachable_wf)
  then have d: "distinct (repos s)" and "set (repos s) \<subseteq> dom (objects s)"
    by (simp_all add: wf_def)
  with assms(2) obtain ob where ob: "objects s r = Some ob" by auto
  have s1: "?s1 = (disposable_dispose r (provider ob) s)
                    \<lparr> provider_disposals := provider_disposals s @ [provider ob] \<rparr>"
    using ob by (simp add: snd_dispose) (simp add: disposable_dispose_def Let_def)
  have r1: "repos ?s1 = remove1 r (repos s)"
    using repos_disposable_dispose [of r "provider ob" s] by (simp add: s1 repos_def)
  have n1: "r \<notin> set (repos ?s1)" using d by (simp add: r1)
  have snap: "arrays (snd (repositories ?s1)) (fst (repositories ?s1)) = repos ?s1"
    by (simp add: repositories_def Let_def)
  have neg: "\<not> indexOf (repos s) r < 0" using assms(2) by (simp add: indexOf_neg_iff)
  have e1: "onDidRemoveProviderEmitter (service ?s1) = onDidRemoveProviderEmitter (service s) @ [r]"
    and e2: "onDidAddProviderEmitter (service ?s1) = onDidAddProviderEmitter (service s)"
    and e3: "onDidChangeSelectedRepositoriesEmitter (service ?s1) =
               onDidChangeSelectedRepositoriesEmitter (service s)"
    using neg by (simp_all add: s1 disposable_dispose_def Let_def fire_def)
  have ob1: "objects ?s1 r = Some ob" using ob by (simp add: s1 disposable_dispose_def Let_def)
  have noop: "disposable_dispose r (provider ob) ?s1 = ?s1"
    using n1 by (simp add: disposable_dispose_def Let_def indexOf_neg_iff)
  have res: "fst (dispose r o2 ?s1) = (case o2 of None \<Rightarrow> Inr () | Some e \<Rightarrow> Inl e)"
    using ob1 by (rule fst_dispose)
  have s2: "snd (dispose r o2 ?s1) = ?s1\<lparr> provider_disposals := provider_disposals ?s1 @ [provider ob] \<rparr>"
    using noop by (simp add: snd_dispose [OF ob1])
  show ?thesis
    unfolding s2 snap using r1 n1 e1 e2 e3 res by simp
qed

theorem dispose_twice_witness:
  "repos (snd (dispose 0 None (run [Register provider_a, Register provider_b] ScmService_new))) = [1]
   \<and> onDidRemoveProviderEmitter (service (snd (dispose 0 None
        (run [Register provider_a, Register provider_b] ScmService_new)))) = [0]
   \<and> fst (dispose 0 None
          (snd (dispose 0 None (run [Register provider_a, Register provider_b] ScmService_new))))
       = Inr ()
   \<and> fst (dispose 0 (Some (JsError ''boom''))
          (snd (dispose 0 None (run [Register provider_a, Register provider_b] ScmService_new))))
       = Inl (JsError ''boom'')
   \<and> service (snd (dispose 0 (Some (JsError ''boom''))
          (snd (dispose 0 None (run [Register provider_a, Register provider_b] ScmService_new)))))
       = service (snd (dispose 0 None
          (run [Register provider_a, Register provider_b] ScmService_new)))
   \<and> dispose 0 None
        (snd (dispose 0 None (run [Register provider_a, Register provider_b] ScmService_new)))
      = (Inr (), (snd (dispose 0 None (run [Register provider_a, Register provider_b] ScmService_new)))
           \<lparr> provider_disposals := [provider_a, provider_a] \<rparr>)"
proof -
  let ?s = "run [Register provider_a, Register provider_b] ScmService_new"
  have r: "reachable ?s" by (rule reachable_run) (rule reachable.init)
  have m: "0 \<in> set (repos ?s)" by (simp add: store_defs)
  have e: "repos ?s = [0, 1]" "onDidRemoveProviderEmitter (service ?s) = []"
    by (simp_all add: store_defs)
  note t = dispose_twice [OF r m, of None None]
  note u = dispose_twice [OF r m, of None "Some (JsError ''boom'')"]
  from t e have a: "repos (snd (dispose 0 None ?s)) = [1]" by simp
  from t e have b: "onDidRemoveProviderEmitter (service (snd (dispose 0 None ?s))) = [0]"
    by simp
  from t have c: "fst (dispose 0 None (snd (dispose 0 None ?s))) = Inr ()" by simp
  from u have d: "fst (dispose 0 (Some (JsError ''boom'')) (snd (dispose 0 None ?s)))
      = Inl (JsError ''boom'')"
    by simp
  from u have f: "service (snd (dispose 0 (Some (JsError ''boom'')) (snd (dispose 0 None ?s))))
      = service (snd (dispose 0 None ?s))"
    by blast
  have g: "dispose 0 None (snd (dispose 0 None ?s))
      = (Inr (), (snd (dispose 0 None ?s))\<lparr> provider_disposals := [provider_a, provider_a] \<rparr>)"
    by (simp add: store_defs)
  from a b c d f g show ?thesis by blast
qed

subsection \<open>The input model\<close>

text \<open>
  C5. Setting the value to the current value changes nothing. Setting it to another
  string stores the string and fires one value change with it, and changes nothing else.
  When the current value is not \<open>''x''\<close>, as in a new input model, setting \<open>''x''\<close>
  twice fires \<open>''x''\<close> once, and setting \<open>''x''\<close> and then \<open>''y''\<close> fires \<open>''x''\<close> and
  then \<open>''y''\<close>.
\<close>

theorem set_value_spec:
  "set_value (u_value i) i = i
   \<and> (u_value i \<noteq> v \<longrightarrow>
        u_value (set_value v i) = v
        \<and> onDidChangeEmitter (set_value v i) = onDidChangeEmitter i @ [v]
        \<and> set_value v i = i\<lparr> u_value := v, onDidChangeEmitter := onDidChangeEmitter i @ [v] \<rparr>)
   \<and> (u_value i \<noteq> ''x'' \<longrightarrow>
        onDidChangeEmitter (set_value ''x'' (set_value ''x'' i)) = onDidChangeEmitter i @ [''x'']
        \<and> onDidChangeEmitter (set_value ''y'' (set_value ''x'' i)) =
            onDidChangeEmitter i @ [''x'', ''y''])"
  by (simp add: set_value_def fire_def)

theorem set_value_spec_witness:
  "set_value '''' ScmInputImpl_new = ScmInputImpl_new
   \<and> u_value (set_value ''x'' ScmInputImpl_new) = ''x''
   \<and> onDidChangeEmitter (set_value ''x'' ScmInputImpl_new) = [''x'']
   \<and> onDidChangeEmitter (set_value ''x'' (set_value ''x'' ScmInputImpl_new)) = [''x'']
   \<and> onDidChangeEmitter (set_value ''y'' (set_value ''x'' ScmInputImpl_new)) = [''x'', ''y'']"
proof -
  have h: "u_value ScmInputImpl_new \<noteq> ''x''" "u_value ScmInputImpl_new = ''''"
    "onDidChangeEmitter ScmInputImpl_new = []"
    by (simp_all add: ScmInputImpl_new_def)
  show ?thesis
    using set_value_spec [of ScmInputImpl_new "''x''"] h(1)
    unfolding h(2) h(3) append_Nil by blast
qed

text \<open>
  C6. Setting the placeholder stores the string and fires one placeholder change with
  it, also when the string is the current placeholder; two calls with the same string
  fire twice. Nothing else changes.
\<close>

theorem set_placeholder_spec:
  "u_placeholder (set_placeholder p i) = p
   \<and> onDidChangePlaceholderEmitter (set_placeholder p i) = onDidChangePlaceholderEmitter i @ [p]
   \<and> onDidChangePlaceholderEmitter (set_placeholder (u_placeholder i) i) =
       onDidChangePlaceholderEmitter i @ [u_placeholder i]
   \<and> onDidChangePlaceholderEmitter (set_placeholder p (set_placeholder p i)) =
       onDidChangePlaceholderEmitter i @ [p, p]
   \<and> set_placeholder p i =
       i\<lparr> u_placeholder := p, onDidChangePlaceholderEmitter := onDidChangePlaceholderEmitter i @ [p] \<rparr>"
  by (simp add: set_placeholder_def fire_def)

subsection \<open>Selection\<close>

text \<open>
  C7. Assigning the selected repository stores the value and fires one "selected
  repository changed" with it, also when the value is the current selection or is
  absent. \<^verbatim>\<open>setSelected(b)\<close> on a wrapper stores the flag and fires one "selection
  changed" with it, also when the flag is the current one.
\<close>

theorem selection_setters_notify:
  "u_selectedRepository (service (set_selectedRepository v s)) = v
   \<and> get_selectedRepository (set_selectedRepository v s) = v
   \<and> onDidChangeSelectedRepositoriesEmitter (service (set_selectedRepository v s)) =
       onDidChangeSelectedRepositoriesEmitter (service s) @ [v]
   \<and> onDidChangeSelectedRepositoriesEmitter
         (service (set_selectedRepository (get_selectedRepository s) s)) =
       onDidChangeSelectedRepositoriesEmitter (service s) @ [get_selectedRepository s]
   \<and> (objects s r = Some w \<longrightarrow>
        selected r (setSelected r b s) = Some b
        \<and> objects (setSelected r b s) r =
            Some (w\<lparr> u_selected := b,
                     onDidChangeSelectionEmitter := onDidChangeSelectionEmitter w @ [b] \<rparr>)
        \<and> objects (setSelected r (u_selected w) s) r =
            Some (w\<lparr> onDidChangeSelectionEmitter :=
                       onDidChangeSelectionEmitter w @ [u_selected w] \<rparr>))"
  by (simp add: set_selectedRepository_def get_selectedRepository_def setSelected_def
      selected_def fire_def)

theorem selection_setters_notify_witness:
  "selected 0 (setSelected 0 False (perform (Register provider_a) ScmService_new)) = Some False
   \<and> objects (setSelected 0 False (perform (Register provider_a) ScmService_new)) 0 =
       Some ((ScmRepositoryImpl_new provider_a)\<lparr> onDidChangeSelectionEmitter := [False] \<rparr>)"
proof -
  let ?s = "perform (Register provider_a) ScmService_new"
  have ob: "objects ?s 0 = Some (ScmRepositoryImpl_new provider_a)" by (simp add: store_defs)
  have f: "u_selected (ScmRepositoryImpl_new provider_a) = False"
    "onDidChangeSelectionEmitter (ScmRepositoryImpl_new provider_a) = []"
    by (simp_all add: ScmRepositoryImpl_new_def)
  show ?thesis
    using selection_setters_notify [of None ?s 0 "ScmRepositoryImpl_new provider_a" False] ob f
    by simp
qed

text \<open>
  C10. Assigning the selected repository leaves every wrapper object, the arrays and the
  set of ids as they are. After a registration into a registry with an empty sequence,
  the selected repository is the new wrapper, the flag of the new wrapper is false, and
  the flag of every other wrapper is as before.
\<close>

theorem selection_independent_of_flag:
  "objects (set_selectedRepository v s) = objects s
   \<and> selected r (set_selectedRepository v s) = selected r s
   \<and> arrays (set_selectedRepository v s) = arrays s
   \<and> providerIds (service (set_selectedRepository v s)) = providerIds (service s)
   \<and> (repos s = [] \<and> provider_id p \<notin> providerIds (service s) \<longrightarrow>
        fst (registerScmProvider p s) = Inr (next_object s)
        \<and> get_selectedRepository (snd (registerScmProvider p s)) = Some (next_object s)
        \<and> selected (next_object s) (snd (registerScmProvider p s)) = Some False
        \<and> (\<forall>r'. r' \<noteq> next_object s \<longrightarrow>
              selected r' (snd (registerScmProvider p s)) = selected r' s))"
  by (simp add: set_selectedRepository_def selected_def registerScmProvider_def Let_def repos_def
      get_selectedRepository_def ScmRepositoryImpl_new_def)

theorem selection_independent_of_flag_witness:
  "fst (registerScmProvider provider_a ScmService_new) = Inr 0
   \<and> get_selectedRepository (snd (registerScmProvider provider_a ScmService_new)) = Some 0
   \<and> selected 0 (snd (registerScmProvider provider_a ScmService_new)) = Some False
   \<and> selected 1 (snd (registerScmProvider provider_a ScmService_new)) = None"
proof -
  have h: "repos ScmService_new = [] \<and> provider_id provider_a \<notin> providerIds (service ScmService_new)"
    "next_object ScmService_new = 0" "selected 1 ScmService_new = None"
    by (simp_all add: ScmService_new_def repos_def selected_def)
  show ?thesis
    using selection_independent_of_flag [of None ScmService_new 0 provider_a] h by simp
qed

subsection \<open>The snapshot of the sequence\<close>

text \<open>
  C8. In a reachable store, \<^verbatim>\<open>get repositories()\<close> returns an array that holds the
  wrappers of the sequence in order, at an address that is not the address of the private
  array, and leaves the sequence as it is; whatever calls follow, the returned array
  holds what it held.
\<close>

theorem repositories_snapshot:
  assumes "reachable s"
  shows "arrays (snd (repositories s)) (fst (repositories s)) = repos s
    \<and> fst (repositories s) \<noteq> u_repositories (service (snd (repositories s)))
    \<and> repos (snd (repositories s)) = repos s
    \<and> arrays (run acts (snd (repositories s))) (fst (repositories s)) = repos s"
proof -
  from assms have "wf s" by (rule reachable_wf)
  then have lt: "u_repositories (service s) < next_array s" by (simp add: wf_def)
  let ?a = "fst (repositories s)" and ?t = "snd (repositories s)"
  have a: "?a = next_array s" by (simp add: repositories_def Let_def)
  have 1: "arrays ?t ?a = repos s" by (simp add: repositories_def Let_def)
  have 2: "?a \<noteq> u_repositories (service ?t)" using lt by (simp add: repositories_def Let_def)
  have 3: "repos ?t = repos s" using lt by (simp add: repositories_def Let_def repos_def)
  have 4: "?a < next_array ?t" by (simp add: repositories_def Let_def)
  from run_keeps_snapshot [OF 4 2, of acts] 1 2 3 show ?thesis by simp
qed

theorem repositories_snapshot_witness:
  "arrays (snd (repositories (perform (Register provider_a) ScmService_new)))
          (fst (repositories (perform (Register provider_a) ScmService_new))) = [0]
   \<and> repos (run [Register provider_b, Dispose 0 None]
              (snd (repositories (perform (Register provider_a) ScmService_new)))) = [1]
   \<and> arrays (run [Register provider_b, Dispose 0 None]
              (snd (repositories (perform (Register provider_a) ScmService_new))))
          (fst (repositories (perform (Register provider_a) ScmService_new))) = [0]"
proof -
  let ?s = "perform (Register provider_a) ScmService_new"
  have r: "reachable ?s" by (rule reachable.step) (rule reachable.init)
  have e: "repos ?s = [0]" by (simp add: store_defs)
  have m: "repos (run [Register provider_b, Dispose 0 None] (snd (repositories ?s))) = [1]"
    by (simp add: store_defs)
  show ?thesis
    using repositories_snapshot [OF r, of "[Register provider_b, Dispose 0 None]"] e m by simp
qed

subsection \<open>Equality of validation results\<close>

text \<open>
  C9. \<open>equal\<close> is true on two absent results; on two present results it is true exactly
  when the messages are equal and the types are equal; on one absent and one present
  result, in either order, it is false. The two examples of the spec are instances.
\<close>

theorem equal_spec:
  "equal None None
   \<and> equal (Some a) (Some b) = (message a = message b \<and> vtype a = vtype b)
   \<and> equal (Some \<lparr>message = ''m'', vtype = Info\<rparr>) (Some \<lparr>message = ''m'', vtype = Info\<rparr>)
   \<and> \<not> equal (Some \<lparr>message = ''m'', vtype = Info\<rparr>) (Some \<lparr>message = ''m'', vtype = Error\<rparr>)
   \<and> \<not> equal None (Some r)
   \<and> \<not> equal (Some r) None"
  by simp

end
